theory Spec2Isabelle
  imports Main "HOL-Library.Word" "HOL-Library.Sublist"
begin

section \<open>JavaScript strings\<close>

text \<open>
  A JavaScript string is a sequence of 16-bit code units: \<open>length\<close>, \<open>slice\<close>, \<open>replace\<close>
  with a regular expression without the \<open>u\<close> flag, \<open>startsWith\<close> and \<open>trim\<close> all work on
  code units. A literal of the source is written \<open>js ''...''\<close>.
\<close>

type_synonym jschar = "16 word"
type_synonym jsstring = "jschar list"

definition js :: "string \<Rightarrow> jsstring" where
  "js s = map of_char s"

text \<open>
  The four code units that \<open>escapeXml\<close> replaces: the ampersand, the less-than sign,
  the greater-than sign and the double quote.
\<close>

abbreviation cAmp :: jschar where "cAmp \<equiv> 0x26"
abbreviation cLt :: jschar where "cLt \<equiv> 0x3C"
abbreviation cGt :: jschar where "cGt \<equiv> 0x3E"
abbreviation cQuot :: jschar where "cQuot \<equiv> 0x22"

text \<open>The line feed of the template literals (\<open>\n\<close>).\<close>

definition NL :: jsstring where
  "NL = [0x0A]"

text \<open>
  \<open>String.prototype.trim\<close> removes the code units of ECMAScript's WhiteSpace and
  LineTerminator productions from both ends.
\<close>

definition isWhiteSpace :: "jschar \<Rightarrow> bool" where
  "isWhiteSpace c \<longleftrightarrow>
     c = 0x09 \<or> c = 0x0A \<or> c = 0x0B \<or> c = 0x0C \<or> c = 0x0D \<or> c = 0x20 \<or> c = 0xA0
     \<or> c = 0x1680 \<or> (0x2000 \<le> c \<and> c \<le> 0x200A) \<or> c = 0x2028 \<or> c = 0x2029
     \<or> c = 0x202F \<or> c = 0x205F \<or> c = 0x3000 \<or> c = 0xFEFF"

definition trim :: "jsstring \<Rightarrow> jsstring" where
  "trim s = rev (dropWhile isWhiteSpace (rev (dropWhile isWhiteSpace s)))"

text \<open>\<open>Array.prototype.join\<close> on an array of strings.\<close>

fun join :: "jsstring \<Rightarrow> jsstring list \<Rightarrow> jsstring" where
  "join sep [] = []"
| "join sep [x] = x"
| "join sep (x # y # ys) = x @ sep @ join sep (y # ys)"

text \<open>
  \<open>s.replace(/c/g, rep)\<close> for a pattern that is one literal code unit: every occurrence
  of \<open>c\<close> becomes \<open>rep\<close>, everything else is copied.
\<close>

definition replaceAllChar :: "jschar \<Rightarrow> jsstring \<Rightarrow> jsstring \<Rightarrow> jsstring" where
  "replaceAllChar c rep s = concat (map (\<lambda>x. if x = c then rep else [x]) s)"


section \<open>types.ts\<close>

record MessageAttachment =
  filename :: jsstring
  path :: jsstring
  mimeType :: jsstring
  size_att :: nat
  isImage :: bool

record NewMessage =
  id_msg :: jsstring
  chat_jid :: jsstring
  sender :: jsstring
  sender_name :: jsstring
  content :: jsstring
  timestamp :: jsstring
  is_from_me :: "bool option"
  is_bot_message :: "bool option"
  attachments :: "MessageAttachment list option"

text \<open>
  The part of the \<open>Channel\<close> interface the router reads: the name, the ownership
  predicate, the liveness query, and whether the optional \<open>sendFile\<close> method is present.
\<close>

record Channel =
  name :: jsstring
  ownsJid :: "jsstring \<Rightarrow> bool"
  isConnected :: bool
  hasSendFile :: bool


section \<open>router.ts\<close>

subsection \<open>escapeXml and formatMessages\<close>

definition escapeXml :: "jsstring \<Rightarrow> jsstring" where
  "escapeXml s =
     (if s = [] then []
      else replaceAllChar cQuot (js ''&quot;'')
             (replaceAllChar cGt (js ''&gt;'')
               (replaceAllChar cLt (js ''&lt;'')
                 (replaceAllChar cAmp (js ''&amp;'') s))))"

definition formatMessage :: "NewMessage \<Rightarrow> jsstring" where
  "formatMessage m =
     js ''<message sender='' @ [cQuot] @ escapeXml (sender_name m) @ [cQuot]
       @ js '' time='' @ [cQuot] @ timestamp m @ [cQuot] @ js ''>''
       @ escapeXml (content m) @ js ''</message>''"

definition formatMessages :: "NewMessage list \<Rightarrow> jsstring" where
  "formatMessages messages =
     js ''<messages>'' @ NL @ join NL (map formatMessage messages) @ NL @ js ''</messages>''"

subsection \<open>stripInternalTags\<close>

definition openTag :: jsstring where
  "openTag = js ''<internal>''"

definition closeTag :: jsstring where
  "closeTag = js ''</internal>''"

text \<open>
  The lazy body \<open>[\s\S]*?\<close> followed by the close marker: the text after the first
  occurrence of the close marker, if there is one.
\<close>

fun findClose :: "jsstring \<Rightarrow> jsstring option" where
  "findClose [] = None"
| "findClose (x # xs) =
     (if prefix closeTag (x # xs) then Some (drop (length closeTag) (x # xs))
      else findClose xs)"

lemma length_openTag: "length openTag = 10"
  by (simp add: openTag_def js_def)

lemma length_closeTag: "length closeTag = 11"
  by (simp add: closeTag_def js_def)

lemma findClose_length: "findClose s = Some r \<Longrightarrow> length r < length s"
  by (induction s) (auto simp: length_closeTag split: if_splits)

text \<open>
  The global replace with the empty string: at each position, left to right, the
  pattern is tried; a match is dropped and the scan resumes behind it, otherwise the
  code unit is copied.
\<close>

function removeInternal :: "jsstring \<Rightarrow> jsstring" where
  "removeInternal [] = []"
| "removeInternal (x # xs) =
     (if prefix openTag (x # xs) then
        (case findClose (drop (length openTag) (x # xs)) of
           Some rest \<Rightarrow> removeInternal rest
         | None \<Rightarrow> x # removeInternal xs)
      else x # removeInternal xs)"
  by pat_completeness auto
termination
proof (relation "measure length")
  fix x :: jschar and xs rest :: jsstring
  assume "findClose (drop (length openTag) (x # xs)) = Some rest"
  then have "length rest < length (drop (length openTag) (x # xs))"
    by (rule findClose_length)
  then show "(rest, x # xs) \<in> measure length"
    by simp
qed auto

definition stripInternalTags :: "jsstring \<Rightarrow> jsstring" where
  "stripInternalTags text = trim (removeInternal text)"

definition formatOutbound :: "jsstring \<Rightarrow> jsstring" where
  "formatOutbound rawText =
     (let text = stripInternalTags rawText in if text = [] then [] else text)"

subsection \<open>routeOutbound, routeFile, findChannel\<close>

datatype router_error =
    NoChannelForJid jsstring
  | NoFileSupport jsstring

text \<open>
  What the router hands over to the selected channel: the method invoked, the channel
  it is invoked on, and the arguments.
\<close>

datatype invocation =
    SendMessageCall "Channel" jsstring jsstring
  | SendFileCall "Channel" jsstring jsstring "jsstring option"

definition routeOutbound :: "Channel list \<Rightarrow> jsstring \<Rightarrow> jsstring \<Rightarrow> router_error + invocation" where
  "routeOutbound channels jid text =
     (case find (\<lambda>c. ownsJid c jid \<and> isConnected c) channels of
        None \<Rightarrow> Inl (NoChannelForJid jid)
      | Some channel \<Rightarrow> Inr (SendMessageCall channel jid text))"

definition routeFile ::
  "Channel list \<Rightarrow> jsstring \<Rightarrow> jsstring \<Rightarrow> jsstring option \<Rightarrow> router_error + invocation" where
  "routeFile channels jid filePath caption =
     (case find (\<lambda>c. ownsJid c jid \<and> isConnected c) channels of
        None \<Rightarrow> Inl (NoChannelForJid jid)
      | Some channel \<Rightarrow>
          if \<not> hasSendFile channel then Inl (NoFileSupport (name channel))
          else Inr (SendFileCall channel jid filePath caption))"

definition findChannel :: "Channel list \<Rightarrow> jsstring \<Rightarrow> Channel option" where
  "findChannel channels jid = find (\<lambda>c. ownsJid c jid) channels"

subsection \<open>collectAttachments\<close>

text \<open>The inner loop over one message's attachments; the state is \<open>(seen, result)\<close>.\<close>

fun collectFrom ::
  "MessageAttachment list \<Rightarrow> jsstring set \<times> MessageAttachment list
     \<Rightarrow> jsstring set \<times> MessageAttachment list" where
  "collectFrom [] st = st"
| "collectFrom (att # atts) (seen, result) =
     (if path att \<notin> seen then collectFrom atts (insert (path att) seen, result @ [att])
      else collectFrom atts (seen, result))"

text \<open>The outer loop over the messages; a message without attachments is skipped.\<close>

fun collectLoop ::
  "NewMessage list \<Rightarrow> jsstring set \<times> MessageAttachment list
     \<Rightarrow> jsstring set \<times> MessageAttachment list" where
  "collectLoop [] st = st"
| "collectLoop (msg # msgs) st =
     (case attachments msg of
        None \<Rightarrow> collectLoop msgs st
      | Some atts \<Rightarrow> collectLoop msgs (collectFrom atts st))"

definition collectAttachments :: "NewMessage list \<Rightarrow> MessageAttachment list" where
  "collectAttachments messages = snd (collectLoop messages ({}, []))"

text \<open>All attachments of a batch, in encounter order.\<close>

definition allAttachments :: "NewMessage list \<Rightarrow> MessageAttachment list" where
  "allAttachments messages =
     concat (map (\<lambda>m. case attachments m of None \<Rightarrow> [] | Some atts \<Rightarrow> atts) messages)"


section \<open>config.ts\<close>

text \<open>
  The configuration module is not among the sources; the three constants the Discord
  channel imports from it are parameters. \<open>TRIGGER_PATTERN\<close> stands for the test of
  the regular expression on a string.
\<close>

record Config =
  ASSISTANT_NAME :: jsstring
  TRIGGER_PATTERN :: "jsstring \<Rightarrow> bool"
  MAX_ATTACHMENT_DOWNLOAD_SIZE :: nat


section \<open>channels/discord.ts\<close>

subsection \<open>Numbers and small string helpers\<close>






text \<open>\<open>jid.replace(/^dc:/, '')\<close>.\<close>

definition stripDc :: "jsstring \<Rightarrow> jsstring" where
  "stripDc jid = (if prefix (js ''dc:'') jid then drop 3 jid else jid)"




subsection \<open>What the channel does to the outside\<close>

datatype log_level = Debug | Info | Warn | Error

datatype button_style = Primary | Secondary | Success | Danger

datatype IpcSelectOption = IpcSelectOption jsstring jsstring "jsstring option"

text \<open>
  A button has a custom id, a label, an optional style and an optional disabled flag; a
  string select has a custom id, an optional placeholder, optional minimum and maximum
  counts, its options and an optional disabled flag.
\<close>

datatype IpcComponent =
    IpcButton jsstring jsstring "button_style option" "bool option"
  | IpcStringSelect jsstring "jsstring option" "nat option" "nat option"
      "IpcSelectOption list" "bool option"

type_synonym IpcActionRow = "IpcComponent list"

text \<open>The state of the platform's builders after the calls of \<open>buildActionRow\<close>.\<close>

datatype BuiltOption = BuiltOption jsstring jsstring "jsstring option"

datatype BuiltComponent =
    ButtonBuilder jsstring jsstring button_style bool
  | StringSelectMenuBuilder jsstring "jsstring option" "nat option" "nat option" bool
      "BuiltOption list"

datatype payload =
    TextPayload jsstring
  | FilePayload "jsstring option" jsstring
  | ComponentsPayload jsstring "BuiltComponent list list"
  | EditPayload "jsstring option" "BuiltComponent list list option"

text \<open>
  The calls the channel makes, in the order it makes them: the logger (level and
  message), the two callbacks of its options, the file system and network calls of the
  attachment download, and the calls on the platform client.
\<close>

datatype effect =
    Log log_level jsstring
  | OnChatMetadata jsstring jsstring jsstring
  | OnMessage jsstring NewMessage
  | FetchMessage jsstring
  | MkdirInbox jsstring
  | FetchUrl jsstring
  | WriteInbox jsstring jsstring nat
  | DeferUpdate
  | ChannelsFetch jsstring
  | ChannelSend jsstring payload
  | SendTyping jsstring
  | MessagesFetch jsstring jsstring
  | MessageEdit jsstring jsstring payload

subsection \<open>The message event and its surroundings\<close>


record RepliedMessage =
  replied_member_displayName :: "jsstring option"
  replied_author_displayName :: "jsstring option"
  replied_author_username :: jsstring



text \<open>
  The outcome of the guarded download of one attachment: the fetch failed (it was
  rejected, the response was not ok, or the body could not be read), the write of the
  given number of bytes failed, or both succeeded.
\<close>

datatype download = FetchFailed | WriteFailed nat | Downloaded nat

text \<open>
  What the handler of one message finds around it: the id of the client's user when
  the client has one, the replied-to message (\<open>None\<close> when fetching it throws), and, for
  the attachment at each position, the clock and the outcome of its download. Calls the
  handler makes outside any \<open>try\<close> (the callbacks, the logger, resolving the group
  folder and creating the inbox directory) are taken to return.
\<close>

record MessageEnv =
  bot_user_id :: "jsstring option"
  fetch_replied :: "jsstring \<Rightarrow> RepliedMessage option"
  date_now :: "nat \<Rightarrow> nat"
  download_result :: "nat \<Rightarrow> download"

subsection \<open>The MessageCreate handler\<close>




















subsection \<open>The InteractionCreate handler\<close>






subsection \<open>The send side\<close>

text \<open>
  The platform client as the channel sees it: whether it is ready; what
  \<open>channels.fetch\<close> gives for a channel id (a rejection, \<open>null\<close>, or a channel that
  has or lacks \<open>send\<close> and \<open>sendTyping\<close>); whether the \<open>k\<close>-th \<open>send\<close> of an operation
  resolves; the id of a sent message; and whether \<open>sendTyping\<close>, \<open>messages.fetch\<close> and
  \<open>edit\<close> resolve. The send operations hand their outcome to the caller: where the
  source has no \<open>try\<close> around a platform call, its rejection is the operation's error.
\<close>

datatype fetched_channel = FetchRejected | NoChannel | Fetched bool bool

record Client =
  isReady :: bool
  channels_fetch :: "jsstring \<Rightarrow> fetched_channel"
  send_ok :: "nat \<Rightarrow> bool"
  sent_id :: jsstring
  sendTyping_ok :: bool
  messages_fetch_ok :: bool
  edit_ok :: bool

record DiscordChannel =
  client :: "Client option"

text \<open>The constructor leaves the client \<open>null\<close>; \<open>connect\<close> creates it.\<close>

definition newDiscordChannel :: DiscordChannel where
  "newDiscordChannel = \<lparr>client = None\<rparr>"

datatype discord_error = ClientNotInitialized | ChannelNotFound jsstring | PlatformRejected

definition discordIsConnected :: "DiscordChannel \<Rightarrow> bool" where
  "discordIsConnected ch = (case client ch of None \<Rightarrow> False | Some cl \<Rightarrow> isReady cl)"

definition discordOwnsJid :: "jsstring \<Rightarrow> bool" where
  "discordOwnsJid jid = prefix (js ''dc:'') jid"

definition disconnect :: "DiscordChannel \<Rightarrow> effect list \<times> DiscordChannel" where
  "disconnect ch =
     (case client ch of
        None \<Rightarrow> ([], ch)
      | Some cl \<Rightarrow> ([Log Info (js ''Discord bot stopped'')], ch\<lparr>client := None\<rparr>))"

definition MAX_LENGTH :: nat where
  "MAX_LENGTH = 2000"

text \<open>
  The loop \<open>for (let i = 0; i < text.length; i += MAX_LENGTH)\<close> with its
  \<open>text.slice(i, i + MAX_LENGTH)\<close>: the slices from position \<open>i\<close> on.
\<close>

function chunksFrom :: "nat \<Rightarrow> jsstring \<Rightarrow> jsstring list" where
  "chunksFrom i text =
     (if i < length text then take MAX_LENGTH (drop i text) # chunksFrom (i + MAX_LENGTH) text
      else [])"
  by pat_completeness auto
termination
  by (relation "measure (\<lambda>(i, text). length text - i)") (auto simp: MAX_LENGTH_def)

declare chunksFrom.simps [simp del]

text \<open>
  The awaited sends, one after the other; \<open>k\<close> counts them. A send that is rejected
  ends the sequence: the exception leaves the \<open>try\<close> block.
\<close>

fun sendEach :: "Client \<Rightarrow> jsstring \<Rightarrow> nat \<Rightarrow> jsstring list \<Rightarrow> effect list \<times> bool" where
  "sendEach cl cid k [] = ([], True)"
| "sendEach cl cid k (t # ts) =
     (if send_ok cl k then
        (case sendEach cl cid (Suc k) ts of
           (effs, ok) \<Rightarrow> (ChannelSend cid (TextPayload t) # effs, ok))
      else ([ChannelSend cid (TextPayload t)], False))"

definition sendMessage ::
  "DiscordChannel \<Rightarrow> jsstring \<Rightarrow> jsstring \<Rightarrow> effect list \<times> (discord_error + unit)" where
  "sendMessage ch jid text =
     (case client ch of
        None \<Rightarrow> ([Log Warn (js ''Discord client not initialized'')], Inr ())
      | Some cl \<Rightarrow>
          (case channels_fetch cl (stripDc jid) of
             FetchRejected \<Rightarrow>
               ([ChannelsFetch (stripDc jid),
                 Log Error (js ''Failed to send Discord message'')], Inr ())
           | NoChannel \<Rightarrow>
               ([ChannelsFetch (stripDc jid),
                 Log Warn (js ''Discord channel not found or not text-based'')], Inr ())
           | Fetched hasSend hasTyping \<Rightarrow>
               if \<not> hasSend then
                 ([ChannelsFetch (stripDc jid),
                   Log Warn (js ''Discord channel not found or not text-based'')], Inr ())
               else
                 (case sendEach cl (stripDc jid) 0
                         (if length text \<le> MAX_LENGTH then [text] else chunksFrom 0 text) of
                    (effs, ok) \<Rightarrow>
                      (ChannelsFetch (stripDc jid) # effs
                         @ [if ok then Log Info (js ''Discord message sent'')
                            else Log Error (js ''Failed to send Discord message'')],
                       Inr ()))))"

definition sendFile ::
  "DiscordChannel \<Rightarrow> jsstring \<Rightarrow> jsstring \<Rightarrow> jsstring option
     \<Rightarrow> effect list \<times> (discord_error + unit)" where
  "sendFile ch jid filePath caption =
     (case client ch of
        None \<Rightarrow> ([Log Warn (js ''Discord client not initialized'')], Inr ())
      | Some cl \<Rightarrow>
          (case channels_fetch cl (stripDc jid) of
             FetchRejected \<Rightarrow>
               ([ChannelsFetch (stripDc jid),
                 Log Error (js ''Failed to send Discord file'')], Inr ())
           | NoChannel \<Rightarrow>
               ([ChannelsFetch (stripDc jid),
                 Log Warn (js ''Discord channel not found or not text-based'')], Inr ())
           | Fetched hasSend hasTyping \<Rightarrow>
               if \<not> hasSend then
                 ([ChannelsFetch (stripDc jid),
                   Log Warn (js ''Discord channel not found or not text-based'')], Inr ())
               else
                 ([ChannelsFetch (stripDc jid),
                   ChannelSend (stripDc jid)
                     (FilePayload
                        (case caption of None \<Rightarrow> None
                         | Some c \<Rightarrow> if c = [] then None else Some c)
                        filePath),
                   if send_ok cl 0 then Log Info (js ''Discord file sent'')
                   else Log Error (js ''Failed to send Discord file'')],
                  Inr ())))"

definition setTyping ::
  "DiscordChannel \<Rightarrow> jsstring \<Rightarrow> bool \<Rightarrow> effect list \<times> (discord_error + unit)" where
  "setTyping ch jid isTyping =
     (case client ch of
        None \<Rightarrow> ([], Inr ())
      | Some cl \<Rightarrow>
          if \<not> isTyping then ([], Inr ())
          else
            (case channels_fetch cl (stripDc jid) of
               FetchRejected \<Rightarrow>
                 ([ChannelsFetch (stripDc jid),
                   Log Debug (js ''Failed to send Discord typing indicator'')], Inr ())
             | NoChannel \<Rightarrow> ([ChannelsFetch (stripDc jid)], Inr ())
             | Fetched hasSend hasTyping \<Rightarrow>
                 if \<not> hasTyping then ([ChannelsFetch (stripDc jid)], Inr ())
                 else if sendTyping_ok cl then
                   ([ChannelsFetch (stripDc jid), SendTyping (stripDc jid)], Inr ())
                 else
                   ([ChannelsFetch (stripDc jid), SendTyping (stripDc jid),
                     Log Debug (js ''Failed to send Discord typing indicator'')], Inr ())))"

fun buildOption :: "IpcSelectOption \<Rightarrow> BuiltOption" where
  "buildOption (IpcSelectOption lbl val descr) =
     BuiltOption lbl val
       (case descr of None \<Rightarrow> None | Some d \<Rightarrow> if d = [] then None else Some d)"

fun buildComponent :: "IpcComponent \<Rightarrow> BuiltComponent" where
  "buildComponent (IpcButton customId lbl st dis) =
     ButtonBuilder customId lbl (case st of None \<Rightarrow> Primary | Some s \<Rightarrow> s) (dis = Some True)"
| "buildComponent (IpcStringSelect customId placeholder minValues maxValues opts dis) =
     StringSelectMenuBuilder customId
       (case placeholder of None \<Rightarrow> None | Some p \<Rightarrow> if p = [] then None else Some p)
       minValues maxValues (dis = Some True) (map buildOption opts)"

definition buildActionRow :: "IpcActionRow \<Rightarrow> BuiltComponent list" where
  "buildActionRow row = map buildComponent row"

definition sendComponents ::
  "DiscordChannel \<Rightarrow> jsstring \<Rightarrow> jsstring \<Rightarrow> IpcActionRow list
     \<Rightarrow> effect list \<times> (discord_error + jsstring)" where
  "sendComponents ch jid text components =
     (case client ch of
        None \<Rightarrow> ([], Inl ClientNotInitialized)
      | Some cl \<Rightarrow>
          (case channels_fetch cl (stripDc jid) of
             FetchRejected \<Rightarrow> ([ChannelsFetch (stripDc jid)], Inl PlatformRejected)
           | NoChannel \<Rightarrow> ([ChannelsFetch (stripDc jid)], Inl (ChannelNotFound jid))
           | Fetched hasSend hasTyping \<Rightarrow>
               if \<not> hasSend then ([ChannelsFetch (stripDc jid)], Inl (ChannelNotFound jid))
               else if send_ok cl 0 then
                 ([ChannelsFetch (stripDc jid),
                   ChannelSend (stripDc jid)
                     (ComponentsPayload text (map buildActionRow components)),
                   Log Info (js ''Discord components sent'')],
                  Inr (sent_id cl))
               else
                 ([ChannelsFetch (stripDc jid),
                   ChannelSend (stripDc jid)
                     (ComponentsPayload text (map buildActionRow components))],
                  Inl PlatformRejected)))"

definition updateComponents ::
  "DiscordChannel \<Rightarrow> jsstring \<Rightarrow> jsstring \<Rightarrow> jsstring option \<Rightarrow> IpcActionRow list option
     \<Rightarrow> effect list \<times> (discord_error + unit)" where
  "updateComponents ch jid messageId text components =
     (case client ch of
        None \<Rightarrow> ([], Inl ClientNotInitialized)
      | Some cl \<Rightarrow>
          (case channels_fetch cl (stripDc jid) of
             FetchRejected \<Rightarrow> ([ChannelsFetch (stripDc jid)], Inl PlatformRejected)
           | NoChannel \<Rightarrow> ([ChannelsFetch (stripDc jid)], Inl (ChannelNotFound jid))
           | Fetched hasSend hasTyping \<Rightarrow>
               if \<not> hasSend then ([ChannelsFetch (stripDc jid)], Inl (ChannelNotFound jid))
               else if \<not> messages_fetch_ok cl then
                 ([ChannelsFetch (stripDc jid), MessagesFetch (stripDc jid) messageId],
                  Inl PlatformRejected)
               else if edit_ok cl then
                 ([ChannelsFetch (stripDc jid), MessagesFetch (stripDc jid) messageId,
                   MessageEdit (stripDc jid) messageId
                     (EditPayload text (map_option (map buildActionRow) components)),
                   Log Info (js ''Discord components updated'')],
                  Inr ())
               else
                 ([ChannelsFetch (stripDc jid), MessagesFetch (stripDc jid) messageId,
                   MessageEdit (stripDc jid) messageId
                     (EditPayload text (map_option (map buildActionRow) components))],
                  Inl PlatformRejected)))"

subsection \<open>Reading the calls\<close>




fun sentTexts :: "effect list \<Rightarrow> jsstring list" where
  "sentTexts [] = []"
| "sentTexts (ChannelSend cid (TextPayload t) # es) = t # sentTexts es"
| "sentTexts (e # es) = sentTexts es"

text \<open>Whether a call reaches the platform, the network or the file system.\<close>

fun isPlatformCall :: "effect \<Rightarrow> bool" where
  "isPlatformCall (Log lvl msg) = False"
| "isPlatformCall (OnChatMetadata jid ts label) = False"
| "isPlatformCall (OnMessage jid msg) = False"
| "isPlatformCall e = True"


section \<open>Auxiliary definitions and example data\<close>


fun keepFirst :: "jsstring set \<Rightarrow> MessageAttachment list \<Rightarrow> MessageAttachment list" where
  "keepFirst seen [] = []"
| "keepFirst seen (a # as) =
     (if path a \<in> seen then keepFirst seen as else a # keepFirst (insert (path a) seen) as)"

definition exampleAttachment :: "string \<Rightarrow> nat \<Rightarrow> MessageAttachment" where
  "exampleAttachment p n =
     \<lparr>filename = js ''photo.png'', path = js p, mimeType = js ''image/png'',
      size_att = n, isImage = True\<rparr>"

definition exampleMessage :: "string \<Rightarrow> string \<Rightarrow> MessageAttachment list option \<Rightarrow> NewMessage" where
  "exampleMessage who body atts =
     \<lparr>id_msg = js ''m1'', chat_jid = js ''dc:1'', sender = js ''u1'', sender_name = js who,
      content = js body, timestamp = js ''2024-01-01T00:00:00.000Z'',
      is_from_me = Some False, is_bot_message = None, attachments = atts\<rparr>"


text \<open>A channel that owns the addresses with prefix \<open>dc:\<close>, as the Discord channel does.\<close>

definition discordLike :: "bool \<Rightarrow> bool \<Rightarrow> Channel" where
  "discordLike live files =
     \<lparr>name = js ''discord'', ownsJid = (\<lambda>jid. prefix (js ''dc:'') jid),
      isConnected = live, hasSendFile = files\<rparr>"


text \<open>What \<open>escapeXml\<close> makes of one code unit, and the four entities it writes.\<close>

definition escapeChar :: "jschar \<Rightarrow> jsstring" where
  "escapeChar c =
     (if c = cAmp then js ''&amp;'' else if c = cLt then js ''&lt;''
      else if c = cGt then js ''&gt;'' else if c = cQuot then js ''&quot;'' else [c])"

definition entities :: "jsstring set" where
  "entities = {js ''&amp;'', js ''&lt;'', js ''&gt;'', js ''&quot;''}"


text \<open>A client that is ready, finds every channel and accepts every send.\<close>

definition readyClient :: Client where
  "readyClient =
     \<lparr>isReady = True, channels_fetch = (\<lambda>cid. Fetched True True), send_ok = (\<lambda>k. True),
      sent_id = js ''sent_001'', sendTyping_ok = True, messages_fetch_ok = True, edit_ok = True\<rparr>"



text \<open>
  Example data: the configuration and the registered conversation of the channel's
  test suite, a message, a button interaction, and two attachments.
\<close>

definition exampleConfig :: Config where
  "exampleConfig =
     \<lparr>ASSISTANT_NAME = js ''Andy'', TRIGGER_PATTERN = (\<lambda>s. prefix (js ''@Andy'') s),
      MAX_ATTACHMENT_DOWNLOAD_SIZE = 26214400\<rparr>"


definition exampleEnv :: MessageEnv where
  "exampleEnv =
     \<lparr>bot_user_id = Some (js ''999888777''), fetch_replied = (\<lambda>rid. None),
      date_now = (\<lambda>i. 1700000000000), download_result = (\<lambda>i. Downloaded 2048)\<rparr>"





section \<open>The attachment collector\<close>

lemma collectFrom_keepFirst:
  "collectFrom atts (seen, result) = (seen \<union> path ` set atts, result @ keepFirst seen atts)"
  by (induction atts arbitrary: seen result) auto

lemma keepFirst_append:
  "keepFirst seen (xs @ ys) = keepFirst seen xs @ keepFirst (seen \<union> path ` set xs) ys"
  by (induction xs arbitrary: seen) (auto simp: insert_absorb)

lemma allAttachments_simps:
  "allAttachments [] = []"
  "allAttachments (m # msgs) =
     (case attachments m of None \<Rightarrow> [] | Some atts \<Rightarrow> atts) @ allAttachments msgs"
  by (simp_all add: allAttachments_def)

lemma collectLoop_keepFirst:
  "collectLoop msgs (seen, result) =
     (seen \<union> path ` set (allAttachments msgs), result @ keepFirst seen (allAttachments msgs))"
proof (induction msgs arbitrary: seen result)
  case Nil
  then show ?case by (simp add: allAttachments_simps)
next
  case (Cons m msgs)
  show ?case
  proof (cases "attachments m")
    case None
    then show ?thesis using Cons.IH by (simp add: allAttachments_simps)
  next
    case (Some atts)
    then show ?thesis
      using Cons.IH
      by (simp add: allAttachments_simps collectFrom_keepFirst keepFirst_append Un_assoc image_Un)
  qed
qed

lemma collectAttachments_keepFirst:
  "collectAttachments msgs = keepFirst {} (allAttachments msgs)"
  by (simp add: collectAttachments_def collectLoop_keepFirst)

lemma keepFirst_paths: "path ` set (keepFirst seen xs) = path ` set xs - seen"
  by (induction xs arbitrary: seen) auto

lemma keepFirst_distinct: "distinct (map path (keepFirst seen xs))"
proof (induction xs arbitrary: seen)
  case Nil
  then show ?case by simp
next
  case (Cons a xs)
  have "path a \<notin> path ` set (keepFirst (insert (path a) seen) xs)"
    by (simp add: keepFirst_paths)
  with Cons show ?case by simp
qed

lemma keepFirst_subseq: "subseq (keepFirst seen xs) xs"
  by (induction xs arbitrary: seen) auto

lemma keepFirst_first:
  "a \<in> set (keepFirst seen xs) \<Longrightarrow> find (\<lambda>b. path b = path a) xs = Some a"
proof (induction xs arbitrary: seen)
  case Nil
  then show ?case by simp
next
  case (Cons x xs)
  show ?case
  proof (cases "path x \<in> seen")
    case True
    with Cons.prems have a: "a \<in> set (keepFirst seen xs)" by simp
    then have "path a \<in> path ` set (keepFirst seen xs)" by blast
    then have "path a \<notin> seen" by (simp add: keepFirst_paths)
    with True have "path x \<noteq> path a" by auto
    with Cons.IH [OF a] show ?thesis by simp
  next
    case False
    show ?thesis
    proof (cases "a = x")
      case True
      then show ?thesis by simp
    next
      case ne: False
      with False Cons.prems have a: "a \<in> set (keepFirst (insert (path x) seen) xs)" by simp
      then have "path a \<in> path ` set (keepFirst (insert (path x) seen) xs)" by blast
      then have "path x \<noteq> path a" by (auto simp: keepFirst_paths)
      with Cons.IH [OF a] show ?thesis by simp
    qed
  qed
qed

lemma keepFirst_id:
  "distinct (map path xs) \<Longrightarrow> path ` set xs \<inter> seen = {} \<Longrightarrow> keepFirst seen xs = xs"
  by (induction xs arbitrary: seen) auto

text \<open>
  C6. The attachment collector returns the attachments of the batch without duplicate
  paths: the paths of the result are pairwise distinct, every path of the batch is kept,
  the result is a subsequence of the batch's attachments in encounter order, and each
  kept attachment is the first of the batch with its path. A batch whose paths are
  already pairwise distinct is returned unchanged, collecting the collected list again
  changes nothing, and paths \<open>[A, B, A, C]\<close> give \<open>[A, B, C]\<close>.
\<close>

theorem collectAttachments_dedup_first_seen:
  "distinct (map path (collectAttachments msgs))
   \<and> path ` set (collectAttachments msgs) = path ` set (allAttachments msgs)
   \<and> subseq (collectAttachments msgs) (allAttachments msgs)
   \<and> (\<forall>a\<in>set (collectAttachments msgs).
         find (\<lambda>b. path b = path a) (allAttachments msgs) = Some a)
   \<and> (distinct (map path (allAttachments msgs)) \<longrightarrow>
         collectAttachments msgs = allAttachments msgs)
   \<and> collectAttachments [m\<lparr>attachments := Some (collectAttachments msgs)\<rparr>]
         = collectAttachments msgs
   \<and> (allAttachments msgs = [a, b, a', c] \<and> path a' = path a
        \<and> distinct [path a, path b, path c] \<longrightarrow>
         collectAttachments msgs = [a, b, c])"
proof (intro conjI ballI impI)
  show "distinct (map path (collectAttachments msgs))"
    by (simp add: collectAttachments_keepFirst keepFirst_distinct)
  show "path ` set (collectAttachments msgs) = path ` set (allAttachments msgs)"
    by (simp add: collectAttachments_keepFirst keepFirst_paths)
  show "subseq (collectAttachments msgs) (allAttachments msgs)"
    by (simp add: collectAttachments_keepFirst keepFirst_subseq)
  show "find (\<lambda>b. path b = path a) (allAttachments msgs) = Some a"
    if "a \<in> set (collectAttachments msgs)" for a
    using that by (simp add: collectAttachments_keepFirst keepFirst_first)
  show "collectAttachments msgs = allAttachments msgs"
    if "distinct (map path (allAttachments msgs))"
    using that by (simp add: collectAttachments_keepFirst keepFirst_id)
  have "allAttachments [m\<lparr>attachments := Some (collectAttachments msgs)\<rparr>]
          = collectAttachments msgs"
    by (simp add: allAttachments_simps)
  then have "collectAttachments [m\<lparr>attachments := Some (collectAttachments msgs)\<rparr>]
          = keepFirst {} (collectAttachments msgs)"
    by (simp only: collectAttachments_keepFirst [of "[m\<lparr>attachments := Some (collectAttachments msgs)\<rparr>]"])
  also have "\<dots> = collectAttachments msgs"
    by (rule keepFirst_id) (simp_all add: collectAttachments_keepFirst keepFirst_distinct)
  finally show "collectAttachments [m\<lparr>attachments := Some (collectAttachments msgs)\<rparr>]
         = collectAttachments msgs" .
  show "collectAttachments msgs = [a, b, c]"
    if "allAttachments msgs = [a, b, a', c] \<and> path a' = path a
        \<and> distinct [path a, path b, path c]"
    using that by (auto simp: collectAttachments_keepFirst)
qed

theorem collectAttachments_witness:
  "collectAttachments
     [exampleMessage ''Alice'' ''one'' (Some [exampleAttachment ''inbox/A'' 1, exampleAttachment ''inbox/B'' 2]),
      exampleMessage ''Bob'' ''two'' None,
      exampleMessage ''Alice'' ''three'' (Some [exampleAttachment ''inbox/A'' 3, exampleAttachment ''inbox/C'' 4])]
   = [exampleAttachment ''inbox/A'' 1, exampleAttachment ''inbox/B'' 2, exampleAttachment ''inbox/C'' 4]"
proof -
  let ?msgs = "[exampleMessage ''Alice'' ''one'' (Some [exampleAttachment ''inbox/A'' 1, exampleAttachment ''inbox/B'' 2]),
      exampleMessage ''Bob'' ''two'' None,
      exampleMessage ''Alice'' ''three'' (Some [exampleAttachment ''inbox/A'' 3, exampleAttachment ''inbox/C'' 4])]"
  have flat: "allAttachments ?msgs = [exampleAttachment ''inbox/A'' 1, exampleAttachment ''inbox/B'' 2,
      exampleAttachment ''inbox/A'' 3, exampleAttachment ''inbox/C'' 4]"
    by (simp add: allAttachments_simps exampleMessage_def)
  have paths: "path (exampleAttachment ''inbox/A'' 3) = path (exampleAttachment ''inbox/A'' 1)
      \<and> distinct [path (exampleAttachment ''inbox/A'' 1), path (exampleAttachment ''inbox/B'' 2),
           path (exampleAttachment ''inbox/C'' 4)]"
    by (simp add: exampleAttachment_def js_def)
  show ?thesis
    using collectAttachments_dedup_first_seen
      [of ?msgs "exampleMessage ''Bob'' ''two'' None" "exampleAttachment ''inbox/A'' 1" "exampleAttachment ''inbox/B'' 2"
          "exampleAttachment ''inbox/A'' 3" "exampleAttachment ''inbox/C'' 4"] flat paths
    by blast
qed



section \<open>The router\<close>

lemma find_first_index:
  "i < length xs \<Longrightarrow> P (xs ! i) \<Longrightarrow> (\<forall>j<i. \<not> P (xs ! j)) \<Longrightarrow> find P xs = Some (xs ! i)"
  by (auto simp: find_Some_iff)

lemma discordLike_sel [simp]:
  "ownsJid (discordLike live files) jid = prefix (js ''dc:'') jid"
  "isConnected (discordLike live files) = live"
  "hasSendFile (discordLike live files) = files"
  "name (discordLike live files) = js ''discord''"
  by (simp_all add: discordLike_def)

lemma owns_dc1: "prefix (js ''dc:'') (js ''dc:1'')"
  by (simp add: js_def)

text \<open>
  C4. \<open>routeOutbound\<close> forwards the send to the first channel of the collection that both
  owns the address and is connected. It fails exactly when no channel satisfies both, and
  then with the no-channel-for-address error, so that no send is handed to any channel;
  this covers the single owner that is disconnected.
\<close>

theorem routeOutbound_selects_first_live_owner:
  "(\<forall>i. i < length channels \<longrightarrow> ownsJid (channels ! i) jid \<and> isConnected (channels ! i)
        \<longrightarrow> (\<forall>j<i. \<not> (ownsJid (channels ! j) jid \<and> isConnected (channels ! j)))
        \<longrightarrow> routeOutbound channels jid text = Inr (SendMessageCall (channels ! i) jid text))
   \<and> ((\<forall>c\<in>set channels. \<not> (ownsJid c jid \<and> isConnected c))
        \<longleftrightarrow> routeOutbound channels jid text = Inl (NoChannelForJid jid))
   \<and> (\<forall>c. c \<in> set channels \<and> ownsJid c jid \<and> \<not> isConnected c
          \<and> (\<forall>d\<in>set channels. ownsJid d jid \<longrightarrow> d = c)
        \<longrightarrow> routeOutbound channels jid text = Inl (NoChannelForJid jid))
   \<and> (\<forall>e. routeOutbound channels jid text = Inl e \<longrightarrow> e = NoChannelForJid jid)"
proof (intro conjI allI impI)
  fix i
  assume "i < length channels" "ownsJid (channels ! i) jid \<and> isConnected (channels ! i)"
    "\<forall>j<i. \<not> (ownsJid (channels ! j) jid \<and> isConnected (channels ! j))"
  then have "find (\<lambda>c. ownsJid c jid \<and> isConnected c) channels = Some (channels ! i)"
    by (intro find_first_index) auto
  then show "routeOutbound channels jid text = Inr (SendMessageCall (channels ! i) jid text)"
    by (simp add: routeOutbound_def)
next
  show "(\<forall>c\<in>set channels. \<not> (ownsJid c jid \<and> isConnected c))
        \<longleftrightarrow> routeOutbound channels jid text = Inl (NoChannelForJid jid)"
  proof (cases "find (\<lambda>c. ownsJid c jid \<and> isConnected c) channels")
    case None
    moreover from None have "\<forall>c\<in>set channels. \<not> (ownsJid c jid \<and> isConnected c)"
      unfolding find_None_iff by blast
    ultimately show ?thesis by (simp add: routeOutbound_def)
  next
    case (Some c)
    then have "c \<in> set channels \<and> ownsJid c jid \<and> isConnected c"
      by (auto simp: find_Some_iff)
    with Some show ?thesis by (auto simp: routeOutbound_def)
  qed
next
  fix c
  assume "c \<in> set channels \<and> ownsJid c jid \<and> \<not> isConnected c
          \<and> (\<forall>d\<in>set channels. ownsJid d jid \<longrightarrow> d = c)"
  then have "find (\<lambda>c. ownsJid c jid \<and> isConnected c) channels = None"
    by (auto simp: find_None_iff)
  then show "routeOutbound channels jid text = Inl (NoChannelForJid jid)"
    by (simp add: routeOutbound_def)
next
  fix e assume "routeOutbound channels jid text = Inl e"
  then show "e = NoChannelForJid jid"
    by (auto simp: routeOutbound_def split: option.splits)
qed

theorem routeOutbound_witness:
  "routeOutbound [discordLike False True, discordLike True True] (js ''dc:1'') (js ''hi'')
     = Inr (SendMessageCall (discordLike True True) (js ''dc:1'') (js ''hi''))
   \<and> routeOutbound [discordLike False True] (js ''dc:1'') (js ''hi'')
     = Inl (NoChannelForJid (js ''dc:1''))"
proof -
  let ?chs = "[discordLike False True, discordLike True True]"
  have 1: "routeOutbound ?chs (js ''dc:1'') (js ''hi'')
     = Inr (SendMessageCall (?chs ! 1) (js ''dc:1'') (js ''hi''))"
    using routeOutbound_selects_first_live_owner
      [of ?chs "js ''dc:1''" "js ''hi''", THEN conjunct1, rule_format, of 1]
    by (simp add: owns_dc1)
  have 2: "routeOutbound [discordLike False True] (js ''dc:1'') (js ''hi'')
     = Inl (NoChannelForJid (js ''dc:1''))"
    using routeOutbound_selects_first_live_owner
      [of "[discordLike False True]" "js ''dc:1''" "js ''hi''", THEN conjunct2, THEN conjunct1]
    by simp
  from 1 2 show ?thesis by simp
qed

text \<open>
  C5. \<open>routeFile\<close> selects as \<open>routeOutbound\<close> does: it fails with the
  no-channel-for-address error on the same inputs, and otherwise works on the channel
  \<open>routeOutbound\<close> would send to. When that channel has no \<open>sendFile\<close>, the result is the
  capability-unsupported error; \<open>routeFile\<close> never hands a \<open>sendMessage\<close> call to a channel.
\<close>

theorem routeFile_selection_and_capability:
  "(routeFile channels jid filePath caption = Inl (NoChannelForJid jid)
      \<longleftrightarrow> routeOutbound channels jid text = Inl (NoChannelForJid jid))
   \<and> (\<forall>c. routeOutbound channels jid text = Inr (SendMessageCall c jid text) \<longrightarrow>
        routeFile channels jid filePath caption =
          (if hasSendFile c then Inr (SendFileCall c jid filePath caption)
           else Inl (NoFileSupport (name c))))
   \<and> (\<forall>i. i < length channels \<longrightarrow> ownsJid (channels ! i) jid \<and> isConnected (channels ! i)
        \<longrightarrow> (\<forall>j<i. \<not> (ownsJid (channels ! j) jid \<and> isConnected (channels ! j)))
        \<longrightarrow> \<not> hasSendFile (channels ! i)
        \<longrightarrow> routeFile channels jid filePath caption = Inl (NoFileSupport (name (channels ! i))))
   \<and> (\<forall>c j t. routeFile channels jid filePath caption \<noteq> Inr (SendMessageCall c j t))"
proof (intro conjI allI impI)
  show "routeFile channels jid filePath caption = Inl (NoChannelForJid jid)
      \<longleftrightarrow> routeOutbound channels jid text = Inl (NoChannelForJid jid)"
    by (auto simp: routeFile_def routeOutbound_def split: option.splits)
next
  fix c assume "routeOutbound channels jid text = Inr (SendMessageCall c jid text)"
  then show "routeFile channels jid filePath caption =
          (if hasSendFile c then Inr (SendFileCall c jid filePath caption)
           else Inl (NoFileSupport (name c)))"
    by (auto simp: routeFile_def routeOutbound_def split: option.splits)
next
  fix i
  assume "i < length channels" "ownsJid (channels ! i) jid \<and> isConnected (channels ! i)"
    "\<forall>j<i. \<not> (ownsJid (channels ! j) jid \<and> isConnected (channels ! j))"
    and nf: "\<not> hasSendFile (channels ! i)"
  then have "find (\<lambda>c. ownsJid c jid \<and> isConnected c) channels = Some (channels ! i)"
    by (intro find_first_index) auto
  with nf show "routeFile channels jid filePath caption = Inl (NoFileSupport (name (channels ! i)))"
    by (simp add: routeFile_def)
next
  fix c j t
  show "routeFile channels jid filePath caption \<noteq> Inr (SendMessageCall c j t)"
    by (auto simp: routeFile_def split: option.splits)
qed

theorem routeFile_witness:
  "routeFile [discordLike False True, discordLike True False] (js ''dc:1'') (js ''/tmp/a.png'') None
     = Inl (NoFileSupport (js ''discord''))"
proof -
  let ?chs = "[discordLike False True, discordLike True False]"
  show ?thesis
    using routeFile_selection_and_capability
      [of ?chs "js ''dc:1''" "js ''/tmp/a.png''" None "js ''hi''",
       THEN conjunct2, THEN conjunct2, THEN conjunct1, rule_format, of 1]
    by (simp add: owns_dc1)
qed


section \<open>The context formatter\<close>

lemma code_units:
  "js ''&'' = [cAmp]" "js ''<'' = [cLt]" "js ''>'' = [cGt]" "[of_char (CHR 0x22)] = [cQuot]"
  by (simp_all add: js_def)

lemma replaceAllChar_concat:
  "replaceAllChar c r (concat xss) = concat (map (replaceAllChar c r) xss)"
  by (induction xss) (simp_all add: replaceAllChar_def)

lemma replaceAllChar_concat_map:
  "replaceAllChar c r (concat (map f s)) = concat (map (\<lambda>x. replaceAllChar c r (f x)) s)"
  by (simp add: replaceAllChar_concat comp_def)

lemma escape_one:
  "replaceAllChar cQuot (js ''&quot;'')
     (replaceAllChar cGt (js ''&gt;'')
       (replaceAllChar cLt (js ''&lt;'')
         (if x = cAmp then js ''&amp;'' else [x]))) = escapeChar x"
  by (simp add: replaceAllChar_def escapeChar_def js_def)

lemma escapeXml_chars: "escapeXml s = concat (map escapeChar s)"
proof -
  have "replaceAllChar cAmp (js ''&amp;'') s
          = concat (map (\<lambda>x. if x = cAmp then js ''&amp;'' else [x]) s)"
    by (simp add: replaceAllChar_def)
  then have "replaceAllChar cQuot (js ''&quot;'')
     (replaceAllChar cGt (js ''&gt;'')
       (replaceAllChar cLt (js ''&lt;'')
         (replaceAllChar cAmp (js ''&amp;'') s))) = concat (map escapeChar s)"
    by (simp only: replaceAllChar_concat_map escape_one)
  then show ?thesis by (simp add: escapeXml_def)
qed

lemma escapeChar_no_markup:
  "cLt \<notin> set (escapeChar c)" "cGt \<notin> set (escapeChar c)" "cQuot \<notin> set (escapeChar c)"
  by (simp_all add: escapeChar_def js_def)

lemma escapeXml_no_markup:
  "cLt \<notin> set (escapeXml s)" "cGt \<notin> set (escapeXml s)" "cQuot \<notin> set (escapeXml s)"
  by (simp_all add: escapeXml_chars escapeChar_no_markup)

lemma escapeChar_amp:
  "i < length (escapeChar c) \<Longrightarrow> escapeChar c ! i = cAmp \<Longrightarrow>
     i = 0 \<and> escapeChar c \<in> entities"
  by (auto simp: escapeChar_def entities_def js_def nth_Cons' split: if_splits)

lemma escapeXml_amp:
  "i < length (escapeXml s) \<Longrightarrow> escapeXml s ! i = cAmp \<Longrightarrow>
     \<exists>e\<in>entities. prefix e (drop i (escapeXml s))"
proof (induction s arbitrary: i)
  case Nil
  then show ?case by (simp add: escapeXml_chars)
next
  case (Cons c s)
  have eq: "escapeXml (c # s) = escapeChar c @ escapeXml s"
    by (simp add: escapeXml_chars)
  show ?case
  proof (cases "i < length (escapeChar c)")
    case True
    with Cons.prems have "escapeChar c ! i = cAmp"
      by (simp add: eq nth_append)
    with True have "i = 0 \<and> escapeChar c \<in> entities"
      by (rule escapeChar_amp)
    then show ?thesis
      by (auto simp: eq intro!: bexI [of _ "escapeChar c"])
  next
    case False
    with Cons.prems have "i - length (escapeChar c) < length (escapeXml s)"
      "escapeXml s ! (i - length (escapeChar c)) = cAmp"
      by (auto simp: eq nth_append)
    then obtain e where "e \<in> entities" "prefix e (drop (i - length (escapeChar c)) (escapeXml s))"
      using Cons.IH by blast
    with False show ?thesis by (auto simp: eq)
  qed
qed

lemma count_join:
  "count_list sep c = 0 \<Longrightarrow> count_list (join sep xs) c = sum_list (map (\<lambda>x. count_list x c) xs)"
  by (induction sep xs rule: join.induct) simp_all

lemma count_escapeXml [simp]: "count_list (escapeXml s) cLt = 0"
  by (simp add: count_list_0_iff escapeXml_no_markup)

lemma count_formatMessage:
  "cLt \<notin> set (timestamp m) \<Longrightarrow> count_list (formatMessage m) cLt = 2"
  by (simp add: formatMessage_def js_def count_list_0_iff)

lemma count_formatMessages:
  assumes "\<forall>m\<in>set msgs. cLt \<notin> set (timestamp m)"
  shows "count_list (formatMessages msgs) cLt = 2 + 2 * length msgs"
proof -
  have "sum_list (map (\<lambda>x. count_list x cLt) (map formatMessage msgs)) = 2 * length msgs"
    using assms by (induction msgs) (simp_all add: count_formatMessage)
  moreover have "count_list NL cLt = 0" by (simp add: NL_def)
  moreover have "count_list (js ''<messages>'') cLt = 1" "count_list (js ''</messages>'') cLt = 1"
    by (simp_all add: js_def)
  ultimately show ?thesis
    by (simp add: formatMessages_def count_join)
qed

text \<open>
  C2. The context formatter writes the \<open><messages>\<close> envelope around one \<open><message>\<close>
  element per input message, the \<open>i\<close>-th element made from the \<open>i\<close>-th message. Sender
  name and body go through \<open>escapeXml\<close>, which rewrites code unit by code unit, so the
  escaped text holds no less-than sign, greater-than sign or double quote, and every
  ampersand in it starts one of the four entities. When no timestamp holds a less-than
  sign, the output holds exactly two of them per message, beside the two of the envelope.
\<close>

theorem formatMessages_envelope_escaped:
  "formatMessages msgs
     = js ''<messages>'' @ NL @ join NL (map formatMessage msgs) @ NL @ js ''</messages>''
   \<and> length (map formatMessage msgs) = length msgs
   \<and> (\<forall>i<length msgs. map formatMessage msgs ! i =
         js ''<message sender='' @ [cQuot] @ escapeXml (sender_name (msgs ! i)) @ [cQuot]
           @ js '' time='' @ [cQuot] @ timestamp (msgs ! i) @ [cQuot] @ js ''>''
           @ escapeXml (content (msgs ! i)) @ js ''</message>'')
   \<and> escapeXml s = concat (map escapeChar s)
   \<and> cLt \<notin> set (escapeXml s) \<and> cGt \<notin> set (escapeXml s) \<and> cQuot \<notin> set (escapeXml s)
   \<and> (\<forall>i. i < length (escapeXml s) \<and> escapeXml s ! i = cAmp \<longrightarrow>
         (\<exists>e\<in>entities. prefix e (drop i (escapeXml s))))
   \<and> ((\<forall>m\<in>set msgs. cLt \<notin> set (timestamp m)) \<longrightarrow>
         count_list (formatMessages msgs) cLt = 2 + 2 * length msgs)"
proof (intro conjI allI impI)
  show "formatMessages msgs
     = js ''<messages>'' @ NL @ join NL (map formatMessage msgs) @ NL @ js ''</messages>''"
    by (simp add: formatMessages_def)
  show "length (map formatMessage msgs) = length msgs"
    by simp
  show "map formatMessage msgs ! i =
         js ''<message sender='' @ [cQuot] @ escapeXml (sender_name (msgs ! i)) @ [cQuot]
           @ js '' time='' @ [cQuot] @ timestamp (msgs ! i) @ [cQuot] @ js ''>''
           @ escapeXml (content (msgs ! i)) @ js ''</message>''"
    if "i < length msgs" for i
    using that by (simp add: formatMessage_def)
  show "escapeXml s = concat (map escapeChar s)"
    by (rule escapeXml_chars)
  show "cLt \<notin> set (escapeXml s)" "cGt \<notin> set (escapeXml s)" "cQuot \<notin> set (escapeXml s)"
    by (rule escapeXml_no_markup)+
  show "\<exists>e\<in>entities. prefix e (drop i (escapeXml s))"
    if "i < length (escapeXml s) \<and> escapeXml s ! i = cAmp" for i
    using that escapeXml_amp by blast
  show "count_list (formatMessages msgs) cLt = 2 + 2 * length msgs"
    if "\<forall>m\<in>set msgs. cLt \<notin> set (timestamp m)"
    using that by (rule count_formatMessages)
qed

theorem formatMessages_witness:
  "count_list (formatMessages [exampleMessage ''A&B'' ''x<y'' None,
      exampleMessage ''Bob'' ''1 > 0'' None]) cLt = 6
   \<and> (\<exists>e\<in>entities. prefix e (drop 1 (escapeXml (js ''A&B''))))"
proof -
  let ?msgs = "[exampleMessage ''A&B'' ''x<y'' None, exampleMessage ''Bob'' ''1 > 0'' None]"
  have ts: "\<forall>m\<in>set ?msgs. cLt \<notin> set (timestamp m)"
    by (simp add: exampleMessage_def js_def)
  have amp: "1 < length (escapeXml (js ''A&B'')) \<and> escapeXml (js ''A&B'') ! 1 = cAmp"
    by (simp add: escapeXml_def replaceAllChar_def js_def)
  note inst = formatMessages_envelope_escaped [of ?msgs "js ''A&B''"]
  from inst ts have "count_list (formatMessages ?msgs) cLt = 2 + 2 * length ?msgs"
    by blast
  moreover from inst amp have "\<exists>e\<in>entities. prefix e (drop 1 (escapeXml (js ''A&B'')))"
    by blast
  ultimately show ?thesis by simp
qed

section \<open>The outbound sanitizer\<close>

lemma closeTag_Cons: "closeTag \<noteq> []" and openTag_Cons: "openTag \<noteq> []"
  by (simp_all add: closeTag_def openTag_def js_def)

lemma findClose_here:
  "prefix closeTag s \<Longrightarrow> findClose s = Some (drop (length closeTag) s)"
  using closeTag_Cons by (cases s) auto

lemma findClose_first:
  "(\<forall>i<length c. \<not> prefix closeTag (drop i (c @ closeTag @ r)))
     \<Longrightarrow> findClose (c @ closeTag @ r) = Some r"
proof (induction c)
  case Nil
  then show ?case by (simp add: findClose_here)
next
  case (Cons x c)
  from Cons.prems have "\<not> prefix closeTag ((x # c) @ closeTag @ r)"
    by force
  moreover from Cons.prems have "\<forall>i<length c. \<not> prefix closeTag (drop i (c @ closeTag @ r))"
    by force
  ultimately show ?case using Cons.IH by simp
qed

lemma findClose_None:
  "findClose s = None \<longleftrightarrow> (\<forall>j. \<not> prefix closeTag (drop j s))"
proof (induction s)
  case Nil
  then show ?case by (simp add: closeTag_Cons)
next
  case (Cons x s)
  have "(\<forall>j. \<not> prefix closeTag (drop j (x # s)))
        \<longleftrightarrow> \<not> prefix closeTag (x # s) \<and> (\<forall>j. \<not> prefix closeTag (drop j s))"
  proof
    assume a: "\<forall>j. \<not> prefix closeTag (drop j (x # s))"
    from a [rule_format, of 0] have "\<not> prefix closeTag (x # s)" by simp
    moreover have "\<not> prefix closeTag (drop j s)" for j
      using a [rule_format, of "Suc j"] by simp
    ultimately show "\<not> prefix closeTag (x # s) \<and> (\<forall>j. \<not> prefix closeTag (drop j s))"
      by blast
  next
    assume a: "\<not> prefix closeTag (x # s) \<and> (\<forall>j. \<not> prefix closeTag (drop j s))"
    show "\<forall>j. \<not> prefix closeTag (drop j (x # s))"
    proof
      fix j show "\<not> prefix closeTag (drop j (x # s))"
        using a by (cases j) auto
    qed
  qed
  with Cons.IH show ?case by simp
qed

lemma removeInternal_match:
  "prefix openTag s \<Longrightarrow> findClose (drop (length openTag) s) = Some rest
     \<Longrightarrow> removeInternal s = removeInternal rest"
  using openTag_Cons by (cases s) auto

lemma removeInternal_copy:
  "(\<forall>i<length p. \<not> prefix openTag (drop i (p @ s)))
     \<Longrightarrow> removeInternal (p @ s) = p @ removeInternal s"
proof (induction p)
  case Nil
  then show ?case by simp
next
  case (Cons x p)
  from Cons.prems have "\<not> prefix openTag ((x # p) @ s)"
    by force
  moreover from Cons.prems have "\<forall>i<length p. \<not> prefix openTag (drop i (p @ s))"
    by force
  ultimately show ?case using Cons.IH by simp
qed

lemma removeInternal_span:
  assumes "\<forall>i<length p. \<not> prefix openTag (drop i (p @ openTag @ c @ closeTag @ r))"
    and "\<forall>i<length c. \<not> prefix closeTag (drop i (c @ closeTag @ r))"
  shows "removeInternal (p @ openTag @ c @ closeTag @ r) = p @ removeInternal r"
proof -
  have "findClose (drop (length openTag) (openTag @ c @ closeTag @ r)) = Some r"
    using assms(2) by (simp add: findClose_first)
  then have "removeInternal (openTag @ c @ closeTag @ r) = removeInternal r"
    by (intro removeInternal_match) simp_all
  with removeInternal_copy [OF assms(1)] show ?thesis by simp
qed

lemma removeInternal_no_span:
  "(\<forall>i j. prefix openTag (drop i s) \<longrightarrow> \<not> prefix closeTag (drop (i + length openTag + j) s))
     \<Longrightarrow> removeInternal s = s"
proof (induction s)
  case Nil
  then show ?case by simp
next
  case (Cons x s)
  have tl: "\<forall>i j. prefix openTag (drop i s) \<longrightarrow> \<not> prefix closeTag (drop (i + length openTag + j) s)"
  proof (intro allI impI)
    fix i j assume "prefix openTag (drop i s)"
    then have "prefix openTag (drop (Suc i) (x # s))" by simp
    with Cons.prems have "\<not> prefix closeTag (drop (Suc i + length openTag + j) (x # s))"
      by blast
    then show "\<not> prefix closeTag (drop (i + length openTag + j) s)" by simp
  qed
  have hd: "findClose (drop (length openTag) (x # s)) = None" if "prefix openTag (x # s)"
  proof -
    have "\<not> prefix closeTag (drop j (drop (length openTag) (x # s)))" for j
      using Cons.prems [rule_format, of 0 j] that by (simp add: add.commute)
    then show ?thesis by (simp only: findClose_None) blast
  qed
  show ?case
    using Cons.IH [OF tl] hd by simp
qed

lemma rev_dropWhile_split:
  "rev (dropWhile P (rev u)) @ rev (takeWhile P (rev u)) = u"
proof -
  have "rev (takeWhile P (rev u) @ dropWhile P (rev u)) = rev (rev u)"
    by (simp only: takeWhile_dropWhile_id)
  then show ?thesis
    by (simp only: rev_append rev_rev_ident)
qed

lemma trim_split:
  "dropWhile isWhiteSpace t
     = trim t @ rev (takeWhile isWhiteSpace (rev (dropWhile isWhiteSpace t)))"
  unfolding trim_def by (rule rev_dropWhile_split [symmetric])

lemma trim_parts:
  "\<exists>a b. t = a @ trim t @ b \<and> (\<forall>x\<in>set a. isWhiteSpace x) \<and> (\<forall>x\<in>set b. isWhiteSpace x)"
proof -
  let ?a = "takeWhile isWhiteSpace t"
  let ?b = "rev (takeWhile isWhiteSpace (rev (dropWhile isWhiteSpace t)))"
  have "t = ?a @ dropWhile isWhiteSpace t"
    by (simp only: takeWhile_dropWhile_id)
  also have "dropWhile isWhiteSpace t = trim t @ ?b"
    by (rule trim_split)
  finally have "t = ?a @ trim t @ ?b" .
  moreover have "\<forall>x\<in>set ?a. isWhiteSpace x"
    by (auto dest: set_takeWhileD)
  moreover have "\<forall>x\<in>set ?b. isWhiteSpace x"
    by (auto dest: set_takeWhileD)
  ultimately show ?thesis by blast
qed

lemma trim_ends:
  assumes "trim t \<noteq> []"
  shows "\<not> isWhiteSpace (hd (trim t)) \<and> \<not> isWhiteSpace (last (trim t))"
proof
  let ?u = "dropWhile isWhiteSpace t"
  let ?v = "dropWhile isWhiteSpace (rev ?u)"
  from assms have v: "?v \<noteq> []" unfolding trim_def rev_is_Nil_conv .
  then have "\<not> isWhiteSpace (hd ?v)" by (rule hd_dropWhile)
  with v show "\<not> isWhiteSpace (last (trim t))"
    by (simp add: trim_def last_rev)
  have u: "?u \<noteq> []"
  proof
    assume e: "?u = []"
    have "?v = []" unfolding e by simp
    with v show False by simp
  qed
  then have nw: "\<not> isWhiteSpace (hd ?u)" by (rule hd_dropWhile)
  have "hd ?u = hd (trim t @ rev (takeWhile isWhiteSpace (rev ?u)))"
    using trim_split [of t] by simp
  with assms have "hd ?u = hd (trim t)" by simp
  with nw show "\<not> isWhiteSpace (hd (trim t))" by simp
qed

lemma strip_example: "stripInternalTags (js ''<internal>secret</internal>visible'') = js ''visible''"
  by (simp add: stripInternalTags_def trim_def isWhiteSpace_def openTag_def closeTag_def js_def)

lemma strip_all_internal:
  assumes "\<forall>i<length c. \<not> prefix closeTag (drop i (c @ closeTag))"
  shows "stripInternalTags (openTag @ c @ closeTag) = []"
proof -
  have "removeInternal ([] @ openTag @ c @ closeTag @ []) = [] @ removeInternal []"
    using assms by (intro removeInternal_span) simp_all
  then show ?thesis by (simp add: stripInternalTags_def trim_def)
qed


lemma prefix_split: "prefix m s \<Longrightarrow> s = m @ drop (length m) s"
  by (auto simp: prefix_def)

lemma first_span_exists:
  assumes "prefix openTag (drop i0 s)" "prefix closeTag (drop (i0 + length openTag + j0) s)"
  shows "\<exists>p c r. s = p @ openTag @ c @ closeTag @ r
           \<and> (\<forall>i<length p. \<not> prefix openTag (drop i s))
           \<and> (\<forall>i<length c. \<not> prefix closeTag (drop i (c @ closeTag @ r)))"
proof -
  define i where "i = (LEAST i. prefix openTag (drop i s))"
  have op: "prefix openTag (drop i s)"
    unfolding i_def using assms(1) by (rule LeastI)
  have "i \<le> i0"
    unfolding i_def using assms(1) by (rule Least_le)
  then have "i0 + length openTag + j0 = i + length openTag + (i0 - i + j0)"
    by simp
  with assms(2) have ex: "prefix closeTag (drop (i + length openTag + (i0 - i + j0)) s)"
    by simp
  define k where "k = (LEAST k. prefix closeTag (drop (i + length openTag + k) s))"
  have cl: "prefix closeTag (drop (i + length openTag + k) s)"
    unfolding k_def using ex by (rule LeastI)
  have i_le: "i \<le> length s"
  proof (rule ccontr)
    assume "\<not> i \<le> length s"
    then have "drop i s = []" by simp
    with op show False by (simp add: openTag_Cons)
  qed
  define t where "t = drop (i + length openTag) s"
  have k_le: "k \<le> length t"
  proof (rule ccontr)
    assume "\<not> k \<le> length t"
    then have "drop (i + length openTag + k) s = []" by (simp add: t_def)
    with cl show False by (simp add: closeTag_Cons)
  qed
  define p where "p = take i s"
  define c where "c = take k t"
  define r where "r = drop (length closeTag) (drop k t)"
  have lp: "length p = i" using i_le by (simp add: p_def)
  have lc: "length c = k" using k_le by (simp add: c_def)
  have "drop i s = openTag @ t"
    using prefix_split [OF op] by (simp add: t_def add.commute)
  moreover have "prefix closeTag (drop k t)"
    using cl by (simp add: t_def add.commute)
  then have "drop k t = closeTag @ r"
    unfolding r_def by (rule prefix_split)
  moreover have "t = c @ drop k t" by (simp add: c_def)
  ultimately have t_eq: "t = c @ closeTag @ r" and "drop i s = openTag @ c @ closeTag @ r"
    by simp_all
  moreover have "s = p @ drop i s" by (simp add: p_def)
  ultimately have s_eq: "s = p @ openTag @ c @ closeTag @ r" by simp
  have no_open: "\<forall>j<length p. \<not> prefix openTag (drop j s)"
    unfolding lp i_def by (auto dest: not_less_Least)
  have "\<not> prefix closeTag (drop j t)" if "j < k" for j
  proof -
    from that have "\<not> prefix closeTag (drop (i + length openTag + j) s)"
      unfolding k_def by (rule not_less_Least)
    then show ?thesis by (simp add: t_def add.commute)
  qed
  then have no_close: "\<forall>j<length c. \<not> prefix closeTag (drop j (c @ closeTag @ r))"
    unfolding lc t_eq [symmetric] by blast
  from s_eq no_open no_close show ?thesis by blast
qed

lemma all_less_upt: "(\<forall>i<n. P i) \<longleftrightarrow> (\<forall>i\<in>set [0..<n]. P i)"
  by auto

text \<open>
  C1. The outbound sanitizer is the span removal followed by \<open>trim\<close>. The span removal
  drops the leftmost span with the nearest close marker and goes on behind it: when no
  open marker starts inside \<open>p\<close> and the close marker does not start inside \<open>c\<close>, the
  text \<open>p <internal> c </internal> r\<close> becomes \<open>p\<close> followed by the removal on \<open>r\<close>. A text
  without any open marker that has a close marker behind it is returned as it is, and
  every text is of one of these two kinds. \<open>trim\<close> cuts white space, and only white
  space, from both ends. The text \<open><internal>secret</internal>visible\<close> gives
  \<open>visible\<close>, and a text that is one span gives the empty string.
\<close>

theorem stripInternalTags_removes_spans:
  "stripInternalTags s = trim (removeInternal s)
   \<and> ((\<forall>i<length p. \<not> prefix openTag (drop i (p @ openTag @ c @ closeTag @ r)))
        \<and> (\<forall>i<length c. \<not> prefix closeTag (drop i (c @ closeTag @ r)))
      \<longrightarrow> removeInternal (p @ openTag @ c @ closeTag @ r) = p @ removeInternal r)
   \<and> ((\<forall>i j. prefix openTag (drop i s)
          \<longrightarrow> \<not> prefix closeTag (drop (i + length openTag + j) s))
      \<longrightarrow> removeInternal s = s)
   \<and> ((\<forall>i j. prefix openTag (drop i s)
          \<longrightarrow> \<not> prefix closeTag (drop (i + length openTag + j) s))
      \<or> (\<exists>p' c' r'. s = p' @ openTag @ c' @ closeTag @ r'
           \<and> (\<forall>i<length p'. \<not> prefix openTag (drop i s))
           \<and> (\<forall>i<length c'. \<not> prefix closeTag (drop i (c' @ closeTag @ r')))))
   \<and> (\<exists>a b. t = a @ trim t @ b
         \<and> (\<forall>x\<in>set a. isWhiteSpace x) \<and> (\<forall>x\<in>set b. isWhiteSpace x))
   \<and> (trim t \<noteq> [] \<longrightarrow> \<not> isWhiteSpace (hd (trim t)) \<and> \<not> isWhiteSpace (last (trim t)))
   \<and> stripInternalTags (js ''<internal>secret</internal>visible'') = js ''visible''
   \<and> ((\<forall>i<length d. \<not> prefix closeTag (drop i (d @ closeTag)))
      \<longrightarrow> stripInternalTags (openTag @ d @ closeTag) = [])"
proof (intro conjI impI)
  show "stripInternalTags s = trim (removeInternal s)"
    by (simp add: stripInternalTags_def)
  show "removeInternal (p @ openTag @ c @ closeTag @ r) = p @ removeInternal r"
    if "(\<forall>i<length p. \<not> prefix openTag (drop i (p @ openTag @ c @ closeTag @ r)))
        \<and> (\<forall>i<length c. \<not> prefix closeTag (drop i (c @ closeTag @ r)))"
    using that by (intro removeInternal_span) blast+
  show "removeInternal s = s"
    if "\<forall>i j. prefix openTag (drop i s)
          \<longrightarrow> \<not> prefix closeTag (drop (i + length openTag + j) s)"
    using that by (rule removeInternal_no_span)
  show "(\<forall>i j. prefix openTag (drop i s)
          \<longrightarrow> \<not> prefix closeTag (drop (i + length openTag + j) s))
      \<or> (\<exists>p' c' r'. s = p' @ openTag @ c' @ closeTag @ r'
           \<and> (\<forall>i<length p'. \<not> prefix openTag (drop i s))
           \<and> (\<forall>i<length c'. \<not> prefix closeTag (drop i (c' @ closeTag @ r'))))"
    using first_span_exists [of _ s] by blast
  show "\<exists>a b. t = a @ trim t @ b
         \<and> (\<forall>x\<in>set a. isWhiteSpace x) \<and> (\<forall>x\<in>set b. isWhiteSpace x)"
    by (rule trim_parts)
  show "\<not> isWhiteSpace (hd (trim t))" if "trim t \<noteq> []"
    using trim_ends [OF that] by blast
  show "\<not> isWhiteSpace (last (trim t))" if "trim t \<noteq> []"
    using trim_ends [OF that] by blast
  show "stripInternalTags (js ''<internal>secret</internal>visible'') = js ''visible''"
    by (rule strip_example)
  show "stripInternalTags (openTag @ d @ closeTag) = []"
    if "\<forall>i<length d. \<not> prefix closeTag (drop i (d @ closeTag))"
    using that by (rule strip_all_internal)
qed

theorem stripInternalTags_witness:
  "removeInternal (js ''say <internal>secret</internal>visible'') = js ''say visible''
   \<and> stripInternalTags (js ''<internal>secret</internal>'') = []"
proof -
  have w1: "\<forall>i<length (js ''say ''). \<not> prefix openTag
      (drop i (js ''say '' @ openTag @ js ''secret'' @ closeTag @ js ''visible''))"
    by (simp add: all_less_upt js_def openTag_def closeTag_def upt_rec_numeral)
  have w2: "\<forall>i<length (js ''secret''). \<not> prefix closeTag
      (drop i (js ''secret'' @ closeTag @ js ''visible''))"
    by (simp add: all_less_upt js_def openTag_def closeTag_def upt_rec_numeral)
  have w3: "\<forall>i<length (js ''secret''). \<not> prefix closeTag (drop i (js ''secret'' @ closeTag))"
    by (simp add: all_less_upt js_def openTag_def closeTag_def upt_rec_numeral)
  have w4: "removeInternal (js ''visible'') = js ''visible''"
    by (simp add: js_def openTag_def closeTag_def)
  note inst = stripInternalTags_removes_spans
    [of _ "js ''say ''" "js ''secret''" "js ''visible''" _ "js ''secret''"]
  from inst w1 w2 have "removeInternal (js ''say '' @ openTag @ js ''secret'' @ closeTag
      @ js ''visible'') = js ''say '' @ removeInternal (js ''visible'')"
    by blast
  then have a: "removeInternal (js ''say <internal>secret</internal>visible'') = js ''say visible''"
    by (simp add: w4) (simp add: js_def openTag_def closeTag_def)
  from inst w3 have "stripInternalTags (openTag @ js ''secret'' @ closeTag) = []"
    by blast
  then have b: "stripInternalTags (js ''<internal>secret</internal>'') = []"
    by (simp add: js_def openTag_def closeTag_def)
  from a b show ?thesis by simp
qed

section \<open>The Discord channel: sending\<close>

text \<open>
  C9, as stated, fails: on a channel whose client is not initialized, \<open>sendComponents\<close>
  does not return normally but fails with the error \<open>Discord client not initialized\<close>.
\<close>

theorem sendComponents_uninitialized_counterexample:
  "snd (sendComponents newDiscordChannel (js ''dc:1'') (js ''Choose:'') []) = Inl ClientNotInitialized"
  by (simp add: sendComponents_def newDiscordChannel_def)

text \<open>
  C9, amended. On a channel whose client is not initialized, \<open>sendMessage\<close> and
  \<open>sendFile\<close> log a warning and return; \<open>setTyping\<close> returns without logging;
  \<open>sendComponents\<close> and \<open>updateComponents\<close> fail with the error
  \<open>Discord client not initialized\<close>, without logging. None of the five makes a
  platform call.
\<close>

theorem uninitialized_client_operations:
  "client ch = None \<Longrightarrow>
     sendMessage ch jid text = ([Log Warn (js ''Discord client not initialized'')], Inr ())
   \<and> sendFile ch jid filePath caption
        = ([Log Warn (js ''Discord client not initialized'')], Inr ())
   \<and> setTyping ch jid isTyping = ([], Inr ())
   \<and> sendComponents ch jid text components = ([], Inl ClientNotInitialized)
   \<and> updateComponents ch jid messageId newText newComponents = ([], Inl ClientNotInitialized)
   \<and> (\<forall>e\<in>set (fst (sendMessage ch jid text)) \<union> set (fst (sendFile ch jid filePath caption))
           \<union> set (fst (setTyping ch jid isTyping))
           \<union> set (fst (sendComponents ch jid text components))
           \<union> set (fst (updateComponents ch jid messageId newText newComponents)).
         \<not> isPlatformCall e)"
  by (simp add: sendMessage_def sendFile_def setTyping_def sendComponents_def updateComponents_def)

theorem uninitialized_client_witness:
  "client newDiscordChannel = None
   \<and> sendMessage newDiscordChannel (js ''dc:1'') (js ''No client'')
        = ([Log Warn (js ''Discord client not initialized'')], Inr ())
   \<and> setTyping newDiscordChannel (js ''dc:1'') True = ([], Inr ())
   \<and> updateComponents newDiscordChannel (js ''dc:1'') (js ''m1'') None None
        = ([], Inl ClientNotInitialized)"
proof -
  have n: "client newDiscordChannel = None" by (simp add: newDiscordChannel_def)
  from uninitialized_client_operations [OF n] n show ?thesis by blast
qed

lemma concat_chunksFrom: "concat (chunksFrom i s) = drop i s"
proof (induction i s rule: chunksFrom.induct)
  case (1 i s)
  show ?case
  proof (cases "i < length s")
    case True
    have "drop i s = take MAX_LENGTH (drop i s) @ drop MAX_LENGTH (drop i s)"
      by (simp only: append_take_drop_id)
    also have "drop MAX_LENGTH (drop i s) = drop (i + MAX_LENGTH) s"
      by (simp add: add.commute)
    finally show ?thesis
      using True "1.IH" by (subst chunksFrom.simps) simp
  next
    case False
    then show ?thesis by (subst chunksFrom.simps) simp
  qed
qed

lemma chunksFrom_bounds:
  "t \<in> set (chunksFrom i s) \<Longrightarrow> 0 < length t \<and> length t \<le> MAX_LENGTH"
proof (induction i s rule: chunksFrom.induct)
  case (1 i s)
  show ?case
  proof (cases "i < length s")
    case True
    with "1.prems" have "t = take MAX_LENGTH (drop i s) \<or> t \<in> set (chunksFrom (i + MAX_LENGTH) s)"
      by (subst (asm) chunksFrom.simps) simp
    then show ?thesis
    proof
      assume "t = take MAX_LENGTH (drop i s)"
      with True show ?thesis by (simp add: MAX_LENGTH_def)
    next
      assume "t \<in> set (chunksFrom (i + MAX_LENGTH) s)"
      with True "1.IH" show ?thesis by blast
    qed
  next
    case False
    with "1.prems" show ?thesis by (subst (asm) chunksFrom.simps) simp
  qed
qed

lemma chunksFrom_nth:
  "k < length (chunksFrom i s) \<Longrightarrow>
     chunksFrom i s ! k = take MAX_LENGTH (drop (i + MAX_LENGTH * k) s)"
proof (induction i s arbitrary: k rule: chunksFrom.induct)
  case (1 i s)
  show ?case
  proof (cases "i < length s")
    case True
    then have eq: "chunksFrom i s
        = take MAX_LENGTH (drop i s) # chunksFrom (i + MAX_LENGTH) s"
      by (subst chunksFrom.simps) simp
    show ?thesis
    proof (cases k)
      case 0
      then show ?thesis by (simp add: eq)
    next
      case (Suc k')
      with "1.prems" have "k' < length (chunksFrom (i + MAX_LENGTH) s)"
        by (simp add: eq)
      from "1.IH" [OF True this] Suc show ?thesis
        by (simp add: eq add.assoc)
    qed
  next
    case False
    then have "chunksFrom i s = []" by (subst chunksFrom.simps) simp
    with "1.prems" show ?thesis by simp
  qed
qed

lemma length_chunksFrom:
  "length (chunksFrom i s) = (length s - i + 1999) div 2000"
proof (induction i s rule: chunksFrom.induct)
  case (1 i s)
  show ?case
  proof (cases "i < length s")
    case True
    then have eq: "chunksFrom i s = take 2000 (drop i s) # chunksFrom (i + 2000) s"
      by (subst chunksFrom.simps) (simp add: MAX_LENGTH_def)
    have step: "(length s - i + 1999) div 2000 = Suc ((length s - (i + 2000) + 1999) div 2000)"
    proof (cases "i + 2000 \<le> length s")
      case le: True
      then have "length s - i + 1999 = (length s - (i + 2000) + 1999) + 2000" by simp
      then show ?thesis by (simp only: div_add_self2)
    next
      case gt: False
      with True have "2000 * 1 \<le> length s - i + 1999" "length s - i + 1999 < 2000 * Suc 1"
        by simp_all
      then have "(length s - i + 1999) div 2000 = 1" by (rule div_nat_eqI)
      moreover from gt have "length s - (i + 2000) = 0" by simp
      ultimately show ?thesis by simp
    qed
    have "length (chunksFrom i s) = Suc (length (chunksFrom (i + 2000) s))"
      by (simp only: eq length_Cons)
    also have "\<dots> = Suc ((length s - (i + 2000) + 1999) div 2000)"
      by (simp only: "1.IH" [OF True, unfolded MAX_LENGTH_def])
    also have "\<dots> = (length s - i + 1999) div 2000"
      by (simp only: step)
    finally show ?thesis .
  next
    case False
    then have "chunksFrom i s = []" by (subst chunksFrom.simps) simp
    with False show ?thesis by simp
  qed
qed

lemma two_elements: "length xs = 2 \<Longrightarrow> xs = [xs ! 0, xs ! 1]"
  by (cases xs; cases "tl xs") auto

lemma sendEach_all_ok:
  "\<forall>k. send_ok cl k \<Longrightarrow>
     sendEach cl cid k ts = (map (\<lambda>t. ChannelSend cid (TextPayload t)) ts, True)"
  by (induction ts arbitrary: k) auto

lemma sentTexts_sends [simp]:
  "sentTexts (map (\<lambda>t. ChannelSend cid (TextPayload t)) ts @ es) = ts @ sentTexts es"
  by (induction ts) auto

lemma sendMessage_run:
  assumes "client ch = Some cl"
    and "channels_fetch cl (stripDc jid) = Fetched True hasTyping"
    and "\<forall>k. send_ok cl k"
  shows "sendMessage ch jid s
      = (ChannelsFetch (stripDc jid)
         # map (\<lambda>t. ChannelSend (stripDc jid) (TextPayload t)) (if length s \<le> 2000 then [s] else chunksFrom 0 s)
         @ [Log Info (js ''Discord message sent'')], Inr ())"
proof (cases "length s \<le> 2000")
  case True
  have "sendEach cl (stripDc jid) 0 [s] = (map (\<lambda>t. ChannelSend (stripDc jid) (TextPayload t)) [s], True)"
    using assms(3) by (rule sendEach_all_ok)
  then show ?thesis
    by (simp add: sendMessage_def assms(1) assms(2) True MAX_LENGTH_def)
next
  case False
  have "sendEach cl (stripDc jid) 0 (chunksFrom 0 s)
     = (map (\<lambda>t. ChannelSend (stripDc jid) (TextPayload t)) (chunksFrom 0 s), True)"
    using assms(3) by (rule sendEach_all_ok)
  then show ?thesis
    by (simp add: sendMessage_def assms(1) assms(2) False MAX_LENGTH_def)
qed

lemma readyClient_sel:
  "channels_fetch readyClient cid = Fetched True True" "send_ok readyClient k"
  by (simp_all add: readyClient_def)

text \<open>
  C10. On a channel whose client finds the text channel and whose sends are accepted,
  \<open>sendMessage\<close> fetches the channel, sends, and logs. A text of at most 2000 code units
  is sent as one message. A longer text is sent as the slices of 2000 code units from
  the positions 0, 2000, 4000, ... in this order, the last one holding the rest; no sent
  text is longer than 2000, and the sent texts concatenated are the original text.
\<close>

theorem sendMessage_chunks:
  assumes "client ch = Some cl"
    and "channels_fetch cl (stripDc jid) = Fetched True hasTyping"
    and "\<forall>k. send_ok cl k"
  shows "fst (sendMessage ch jid s)
           = ChannelsFetch (stripDc jid)
             # map (\<lambda>t. ChannelSend (stripDc jid) (TextPayload t))
                 (if length s \<le> 2000 then [s] else chunksFrom 0 s)
             @ [Log Info (js ''Discord message sent'')]
     \<and> snd (sendMessage ch jid s) = Inr ()
     \<and> (length s \<le> 2000 \<longrightarrow> sentTexts (fst (sendMessage ch jid s)) = [s])
     \<and> (2000 < length s \<longrightarrow>
          length (sentTexts (fst (sendMessage ch jid s))) = (length s + 1999) div 2000
          \<and> (\<forall>k<length (sentTexts (fst (sendMessage ch jid s))).
                sentTexts (fst (sendMessage ch jid s)) ! k = take 2000 (drop (2000 * k) s)))
     \<and> (\<forall>t\<in>set (sentTexts (fst (sendMessage ch jid s))). length t \<le> 2000)
     \<and> concat (sentTexts (fst (sendMessage ch jid s))) = s"
proof -
  let ?chunks = "if length s \<le> 2000 then [s] else chunksFrom 0 s"
  let ?sent = "sentTexts (fst (sendMessage ch jid s))"
  note run = sendMessage_run [OF assms, of s]
  have sent: "?sent = ?chunks"
    by (simp only: run fst_conv sentTexts.simps sentTexts_sends) simp
  have short: "?sent = [s]" if "length s \<le> 2000"
    using that by (simp only: sent if_True)
  have long: "?sent = chunksFrom 0 s" if "2000 < length s"
  proof -
    from that have "\<not> length s \<le> 2000" by simp
    then show ?thesis by (simp only: sent if_False)
  qed
  have len: "length ?sent = (length s + 1999) div 2000" if "2000 < length s"
    by (simp add: long [OF that] length_chunksFrom)
  have nth: "?sent ! k = take 2000 (drop (2000 * k) s)"
    if "2000 < length s" "k < length ?sent" for k
  proof -
    from that have "k < length (chunksFrom 0 s)" by (simp only: long)
    then have "chunksFrom 0 s ! k = take MAX_LENGTH (drop (0 + MAX_LENGTH * k) s)"
      by (rule chunksFrom_nth)
    then show ?thesis by (simp only: long [OF that(1)] MAX_LENGTH_def) simp
  qed
  have bound: "length t \<le> 2000" if "t \<in> set ?sent" for t
  proof (cases "length s \<le> 2000")
    case True
    from that have "t = s" by (simp only: short [OF True]) simp
    with True show ?thesis by simp
  next
    case False
    then have "2000 < length s" by simp
    with that have "t \<in> set (chunksFrom 0 s)" by (simp only: long)
    then show ?thesis using chunksFrom_bounds [of t 0 s] by (simp add: MAX_LENGTH_def)
  qed
  have cat: "concat ?sent = s"
  proof (cases "length s \<le> 2000")
    case True
    show ?thesis by (simp only: short [OF True]) simp
  next
    case False
    then have "2000 < length s" by simp
    then show ?thesis by (simp only: long concat_chunksFrom) simp
  qed
  show ?thesis
  proof (intro conjI impI allI ballI)
    show "fst (sendMessage ch jid s)
           = ChannelsFetch (stripDc jid)
             # map (\<lambda>t. ChannelSend (stripDc jid) (TextPayload t)) ?chunks
             @ [Log Info (js ''Discord message sent'')]"
      by (simp only: run fst_conv)
    show "snd (sendMessage ch jid s) = Inr ()"
      by (simp only: run snd_conv)
    show "?sent = [s]" if "length s \<le> 2000"
      using that by (rule short)
    show "length ?sent = (length s + 1999) div 2000" if "2000 < length s"
      using that by (rule len)
    show "?sent ! k = take 2000 (drop (2000 * k) s)"
      if "2000 < length s" "k < length ?sent" for k
      using that by (rule nth)
    show "length t \<le> 2000" if "t \<in> set ?sent" for t
      using that by (rule bound)
    show "concat ?sent = s" by (rule cat)
  qed
qed

theorem sendMessage_chunks_witness:
  "sentTexts (fst (sendMessage \<lparr>client = Some readyClient\<rparr> (js ''dc:1'') (replicate 3000 120)))
     = [replicate 2000 120, replicate 1000 120]"
proof -
  let ?s = "replicate 3000 (120 :: jschar)"
  let ?sent = "sentTexts (fst (sendMessage \<lparr>client = Some readyClient\<rparr> (js ''dc:1'') ?s))"
  have c: "client \<lparr>client = Some readyClient\<rparr> = Some readyClient" by simp
  have f: "channels_fetch readyClient (stripDc (js ''dc:1'')) = Fetched True True"
    by (rule readyClient_sel)
  have o: "\<forall>k. send_ok readyClient k" by (simp add: readyClient_sel)
  have long: "2000 < length ?s" by simp
  note inst = sendMessage_chunks [OF c f o, of ?s,
      THEN conjunct2, THEN conjunct2, THEN conjunct2, THEN conjunct1, rule_format, OF long]
  from inst have "length ?sent = (length ?s + 1999) div 2000" by (rule conjunct1)
  then have len: "length ?sent = 2" by simp
  from inst have nth: "\<forall>k<length ?sent. ?sent ! k = take 2000 (drop (2000 * k) ?s)"
    by (rule conjunct2)
  have "0 < length ?sent" "1 < length ?sent" by (simp_all add: len)
  with nth have "?sent ! 0 = take 2000 (drop (2000 * 0) ?s)"
    "?sent ! 1 = take 2000 (drop (2000 * 1) ?s)" by blast+
  then have n: "?sent ! 0 = replicate 2000 120" "?sent ! 1 = replicate 1000 120" by simp_all
  from two_elements [OF len] show ?thesis by (simp only: n)
qed

section \<open>The Discord channel: inbound messages\<close>













lemma exampleEnv_sel [simp]:
  "bot_user_id exampleEnv = Some (js ''999888777'')"
  "fetch_replied exampleEnv rid = None"
  "date_now exampleEnv i = 1700000000000"
  "download_result exampleEnv i = Downloaded 2048"
  by (simp_all add: exampleEnv_def)

lemma exampleConfig_sel [simp]:
  "ASSISTANT_NAME exampleConfig = js ''Andy''"
  "TRIGGER_PATTERN exampleConfig s = prefix (js ''@Andy'') s"
  "MAX_ATTACHMENT_DOWNLOAD_SIZE exampleConfig = 26214400"
  by (simp_all add: exampleConfig_def)










section \<open>The Discord channel: interactions\<close>




end
